theory Spec2Isabelle
  imports Complex_Main "HOL-Library.Log_Nat"
begin

section \<open>Messages/Track.h: the fields of a track message that TrackMaintainer reads\<close>

text \<open>
  \<^verbatim>\<open>Messages/Track.h\<close> is not part of the sources at hand. The record holds what
  \<^verbatim>\<open>TrackMaintainer.cc\<close> reads and writes through the accessors of a message:
  \<^verbatim>\<open>getTrackNumber()\<close>, \<^verbatim>\<open>getFlags()\<close>/\<^verbatim>\<open>setFlags()\<close>, \<^verbatim>\<open>getType()\<close> and
  \<^verbatim>\<open>getExtractionTime()\<close>, and the producer name given to \<^verbatim>\<open>Track::Make\<close>. The
  enumerators are those named in \<^verbatim>\<open>checkDatabase\<close>.

  Times are C++ doubles. The type of doubles is the type parameter \<open>'d\<close> of the model, and
  \<open>+\<close>, \<open>-\<close>, \<open>*\<close> and \<open><\<close> on it are the operations of the syntactic classes
  \<open>plus\<close>, \<open>minus\<close>, \<open>times\<close> and \<open>ord\<close>, which have no laws: the methods below compute
  with the machine's operations, whatever they round to, and every theorem about them
  holds of IEEE arithmetic as of any other. The type \<open>double\<close> further down is IEEE
  binary64; the scenarios are evaluated on it.
\<close>

datatype Flags =
  kDropping | kNew | kPromoted | kNeedsPrediction | kNeedsCorrection | kPredicted | kCorrected

datatype Type = kTentative | kConfirmed

record 'd Track =
  producer :: string
  trackNumber :: int
  flags :: Flags
  type :: Type
  extractionTime :: 'd

definition setFlags :: "Flags \<Rightarrow> 'd Track \<Rightarrow> 'd Track" where
  "setFlags f t = t\<lparr>flags := f\<rparr>"

text \<open>
  Modelled from the spec: \<^verbatim>\<open>Track::Make(producer, track)\<close> of \<^verbatim>\<open>Messages/Track.h\<close>,
  which is missing. The spec's report delivers the key and the latest payload of the
  entity, so the new message is a copy of the given one under the new producer name. It
  is a fresh object: writing to it does not write to the message it was copied from.
\<close>

definition Track_Make :: "string \<Rightarrow> 'd Track \<Rightarrow> 'd Track" where
  "Track_Make name t = t\<lparr>producer := name\<rparr>"

section \<open>The track database: a \<^verbatim>\<open>std::map\<close> from track number to message vector\<close>

text \<open>
  \<^verbatim>\<open>Mapping\<close> is a \<^verbatim>\<open>std::map\<close>: its entries are kept in increasing key order with
  no key twice. It is modelled as an association list in that order; an iterator is the
  key of the entry it points to, \<open>None\<close> for \<^verbatim>\<open>end()\<close>.
\<close>

type_synonym 'd TrackMsgVector = "'d Track list"
type_synonym 'd Mapping = "(int \<times> 'd TrackMsgVector) list"
type_synonym iterator = "int option"

definition db_begin :: "'d Mapping \<Rightarrow> iterator" where
  "db_begin db = (case db of [] \<Rightarrow> None | (k, _) # _ \<Rightarrow> Some k)"

text \<open>\<^verbatim>\<open>++it\<close>: the entry with the least key above the current one.\<close>

definition db_next :: "'d Mapping \<Rightarrow> int \<Rightarrow> iterator" where
  "db_next db k = map_option fst (find (\<lambda>(k', _). k < k') db)"

definition db_find :: "'d Mapping \<Rightarrow> int \<Rightarrow> 'd TrackMsgVector option" where
  "db_find db k = map_of db k"

text \<open>\<^verbatim>\<open>erase(it)\<close> removes the entry of that key and touches no other entry.\<close>

definition db_erase :: "int \<Rightarrow> 'd Mapping \<Rightarrow> 'd Mapping" where
  "db_erase k db = filter (\<lambda>(k', _). k' \<noteq> k) db"

text \<open>\<^verbatim>\<open>insert(value_type(k, v))\<close>: in key order; an existing entry is left as it is.\<close>

fun db_insert :: "int \<times> 'd TrackMsgVector \<Rightarrow> 'd Mapping \<Rightarrow> 'd Mapping" where
  "db_insert (k, v) [] = [(k, v)]"
| "db_insert (k, v) ((k', v') # db) =
     (if k < k' then (k, v) # (k', v') # db
      else if k = k' then (k', v') # db
      else (k', v') # db_insert (k, v) db)"

text \<open>\<^verbatim>\<open>it->second.push_back(msg)\<close> for the iterator at key \<open>k\<close>.\<close>

definition db_push_back :: "int \<Rightarrow> 'd Track \<Rightarrow> 'd Mapping \<Rightarrow> 'd Mapping" where
  "db_push_back k msg db = map (\<lambda>(k', ts). if k' = k then (k', ts @ [msg]) else (k', ts)) db"

section \<open>TrackMaintainer\<close>

text \<open>
  The members of the object that its methods change: the database and the offset between
  message time and wall time (\<^verbatim>\<open>TrackMaintainer.h\<close> is not at hand; the members are
  those the methods use). The constructor does not initialise the offset.
\<close>

record 'd TrackMaintainer =
  trackDatabase :: "'d Mapping"
  epoch :: 'd

text \<open>
  What a maintenance pass reads from outside the object: the two runtime parameters
  (\<^verbatim>\<open>Parameter::PositiveIntValue\<close>, so positive) and \<^verbatim>\<open>RadarConfig::GetRotationDuration()\<close>.
\<close>

record 'd Settings =
  hitsBeforePromote :: nat
  missesBeforeDrop :: nat
  rotationDuration :: 'd

text \<open>
  \<^verbatim>\<open>reset()\<close> clears the database and returns what \<^verbatim>\<open>Super::reset()\<close> returns (the base
  class is not at hand: its result is the argument \<open>super\<close>).
\<close>

definition reset :: "bool \<Rightarrow> 'd TrackMaintainer \<Rightarrow> bool \<times> 'd TrackMaintainer" where
  "reset super st = (super, st\<lparr>trackDatabase := []\<rparr>)"

text \<open>\<^verbatim>\<open>updateDatabase(msg)\<close>; \<open>now\<close> is the reading of \<^verbatim>\<open>Time::TimeStamp::Now()\<close>.\<close>

definition updateDatabase :: "'d::minus \<Rightarrow> 'd Track \<Rightarrow> 'd TrackMaintainer \<Rightarrow> 'd TrackMaintainer" where
  "updateDatabase now msg st =
     (let db = trackDatabase st;
          k = trackNumber msg;
          db1 = (case db_find db k of
                   None \<Rightarrow> db_insert (k, []) db
                 | Some _ \<Rightarrow> db);
          db2 = db_push_back k msg db1
      in st\<lparr>trackDatabase := db2, epoch := now - extractionTime msg\<rparr>)"

definition processInput :: "'d::minus \<Rightarrow> 'd Track \<Rightarrow> 'd TrackMaintainer \<Rightarrow> bool \<times> 'd TrackMaintainer" where
  "processInput now msg st =
     (True, if flags msg = kNew \<or> flags msg = kCorrected then updateDatabase now msg st else st)"

text \<open>
  The loop of \<^verbatim>\<open>checkDatabase()\<close>. \<open>clock n\<close> is the reading of the \<open>n\<close>-th call of
  \<^verbatim>\<open>Time::TimeStamp::Now()\<close> in the pass (one call for each entry visited); \<open>out\<close>
  collects the messages given to \<^verbatim>\<open>send\<close>, \<open>visited\<close> the keys written by the log line
  at the head of the loop body. The vector of an entry found by the iterator is read
  with \<^verbatim>\<open>back()\<close>; every vector in the database is non-empty (see \<open>db_inv\<close>).
\<close>

function checkLoop ::
  "'d::{plus,minus,ord} Settings \<Rightarrow> 'd \<Rightarrow> (nat \<Rightarrow> 'd) \<Rightarrow> nat \<Rightarrow> iterator \<Rightarrow> 'd TrackMaintainer
     \<Rightarrow> 'd Track list \<Rightarrow> int list \<Rightarrow> 'd TrackMaintainer \<times> 'd Track list \<times> int list"
where
  "checkLoop P dropLimit clock n None st out visited = (st, out, visited)"
| "checkLoop P dropLimit clock n (Some k) st out visited =
     (case db_find (trackDatabase st) k of
        None \<Rightarrow> (st, out, visited)
      | Some tracks \<Rightarrow>
          let track = last tracks;
              promoted =
                (if type track = kTentative \<and> hitsBeforePromote P \<le> length tracks
                 then Some (setFlags kPromoted (Track_Make ''TrackMaintainer'' track))
                 else None);
              now = clock n;
              dropping = (now - (epoch st + extractionTime track) > dropLimit);
              report =
                (if dropping then Some (setFlags kDropping (Track_Make ''TrackMaintainer'' track))
                 else promoted);
              it' = db_next (trackDatabase st) k;
              st' = (if dropping then st\<lparr>trackDatabase := db_erase k (trackDatabase st)\<rparr> else st);
              out' = (case report of Some r \<Rightarrow> out @ [r] | None \<Rightarrow> out)
          in checkLoop P dropLimit clock (Suc n) it' st' out' (visited @ [k]))"
  by pat_completeness auto

lemma db_next_greater: "db_next db k = Some k2 \<Longrightarrow> k < k2"
  by (auto simp: db_next_def find_Some_iff)

lemma filter_above_less:
  fixes db :: "'d Mapping"
  assumes "(k, ts) \<in> set db" and "k < k2"
  shows "length (filter (\<lambda>(k', _). k2 \<le> k') db) < length (filter (\<lambda>(k', _). k \<le> k') db)"
proof -
  have "filter (\<lambda>(k', _). k2 \<le> k') db
          = filter (\<lambda>(k', _). k2 \<le> k') (filter (\<lambda>(k', _). k \<le> k') db)"
    using assms(2) by (auto intro!: filter_cong)
  moreover have "(k, ts) \<in> set (filter (\<lambda>(k', _). k \<le> k') db)"
    using assms(1) by simp
  moreover have "\<not> (case (k, ts) of (k', _) \<Rightarrow> k2 \<le> k')"
    using assms(2) by simp
  ultimately show ?thesis
    using length_filter_less by metis
qed

lemma filter_erase_le:
  fixes db :: "'d Mapping"
  shows "length (filter Q (db_erase k db)) \<le> length (filter Q db)"
  unfolding db_erase_def by (induction db) auto

lemma checkLoop_measure:
  fixes db :: "'d Mapping"
  assumes "db_find db k = Some ts" and "db' = db \<or> db' = db_erase k db"
  shows "(case db_next db k of None \<Rightarrow> 0
          | Some k2 \<Rightarrow> Suc (length (filter (\<lambda>(k', _). k2 \<le> k') db')))
         < Suc (length (filter (\<lambda>(k', _). k \<le> k') db))"
proof (cases "db_next db k")
  case None
  then show ?thesis by simp
next
  case (Some k2)
  have "(k, ts) \<in> set db"
    using assms(1) by (simp add: db_find_def map_of_SomeD)
  then have "length (filter (\<lambda>(k', _). k2 \<le> k') db) < length (filter (\<lambda>(k', _). k \<le> k') db)"
    using filter_above_less db_next_greater [OF Some] by blast
  moreover have "length (filter (\<lambda>(k', _). k2 \<le> k') db') \<le> length (filter (\<lambda>(k', _). k2 \<le> k') db)"
    using assms(2) filter_erase_le by auto
  ultimately show ?thesis using Some by simp
qed

termination checkLoop
proof (relation "measure (\<lambda>(P, dropLimit, clock, n, it, st, out, visited).
          case it of None \<Rightarrow> 0
          | Some k \<Rightarrow> Suc (length (filter (\<lambda>(k', _). k \<le> k') (trackDatabase st))))")
  show "wf (measure (\<lambda>(P, dropLimit, clock, n, it, st, out, visited).
          case it of None \<Rightarrow> 0
          | Some k \<Rightarrow> Suc (length (filter (\<lambda>(k', _). k \<le> k') (trackDatabase st)))))"
    by simp
next
  fix P :: "'d::{plus,minus,ord} Settings" and dropLimit :: 'd and clock :: "nat \<Rightarrow> 'd"
    and n :: nat and k :: int and st :: "'d TrackMaintainer" and out :: "'d Track list"
    and visited :: "int list" and x2 and xa :: "'d Track" and xb xc xd xe xf xg xh
  assume a: "db_find (trackDatabase st) k = Some x2"
    and d: "xd = (xc - (epoch st + extractionTime xa) > dropLimit)"
    and f: "xf = db_next (trackDatabase st) k"
    and g: "xg = (if xd then st\<lparr>trackDatabase := db_erase k (trackDatabase st)\<rparr> else st)"
  have "trackDatabase xg = trackDatabase st \<or> trackDatabase xg = db_erase k (trackDatabase st)"
    using g by simp
  from checkLoop_measure [OF a this]
  show "((P, dropLimit, clock, Suc n, xf, xg, xh, visited @ [k]),
         (P, dropLimit, clock, n, Some k, st, out, visited))
        \<in> measure (\<lambda>(P, dropLimit, clock, n, it, st, out, visited).
          case it of None \<Rightarrow> 0
          | Some k \<Rightarrow> Suc (length (filter (\<lambda>(k', _). k \<le> k') (trackDatabase st))))"
    using f by simp
qed

text \<open>
  \<^verbatim>\<open>checkDatabase()\<close>: the drop limit is computed once, then the loop runs from
  \<^verbatim>\<open>begin()\<close>. The product is double times int: \<open>toDouble\<close> is the conversion of the
  int operand to double, a parameter like the arithmetic it feeds. The result is the
  object after the pass, the messages sent, in order, and the keys visited, in order.
\<close>

definition checkDatabase ::
  "(nat \<Rightarrow> 'd) \<Rightarrow> 'd::{plus,minus,times,ord} Settings \<Rightarrow> (nat \<Rightarrow> 'd) \<Rightarrow> 'd TrackMaintainer
     \<Rightarrow> 'd TrackMaintainer \<times> 'd Track list \<times> int list"
where
  "checkDatabase toDouble P clock st =
     (let dropLimit = rotationDuration P * toDouble (missesBeforeDrop P)
      in checkLoop P dropLimit clock 0 (db_begin (trackDatabase st)) st [] [])"

text \<open>
  The calls the hosting stage makes on the object, each with what it reads from outside
  (clock readings, parameters, the base class's result), and what each call gives back:
  the value returned, and for the alarm the messages sent and the keys visited.
\<close>

datatype 'd Call =
  ProcessInput 'd "'d Track"
| ProcessAlarm "'d Settings" "nat \<Rightarrow> 'd"
| Reset bool

datatype 'd Outcome = Returned bool | Sent "'d Track list" "int list"

fun exec ::
  "(nat \<Rightarrow> 'd) \<Rightarrow> 'd::{plus,minus,times,ord} Call \<Rightarrow> 'd TrackMaintainer
     \<Rightarrow> 'd TrackMaintainer \<times> 'd Outcome"
where
  "exec toDouble (ProcessInput now msg) st =
     (snd (processInput now msg st), Returned (fst (processInput now msg st)))"
| "exec toDouble (ProcessAlarm P clock) st =
     (case checkDatabase toDouble P clock st of (st', out, visited) \<Rightarrow> (st', Sent out visited))"
| "exec toDouble (Reset super) st = (snd (reset super st), Returned (fst (reset super st)))"

fun run ::
  "(nat \<Rightarrow> 'd) \<Rightarrow> 'd::{plus,minus,times,ord} Call list \<Rightarrow> 'd TrackMaintainer
     \<Rightarrow> 'd TrackMaintainer \<times> 'd Outcome list"
where
  "run toDouble [] st = (st, [])"
| "run toDouble (c # cs) st =
     (case exec toDouble c st of (st1, r) \<Rightarrow>
        (case run toDouble cs st1 of (st2, rs) \<Rightarrow> (st2, r # rs)))"

text \<open>A call that \<^verbatim>\<open>processInput\<close> passes on to \<^verbatim>\<open>updateDatabase\<close>.\<close>

fun accepted :: "'d Call \<Rightarrow> bool" where
  "accepted (ProcessInput now msg) = (flags msg = kNew \<or> flags msg = kCorrected)"
| "accepted (ProcessAlarm P clock) = False"
| "accepted (Reset super) = False"

section \<open>Threading.h: equality of Mutex objects\<close>

text \<open>
  A \<^verbatim>\<open>Mutex\<close> object lives at an address and holds a \<^verbatim>\<open>pthread_mutex_t\<close>; a reference
  \<^verbatim>\<open>const Mutex&\<close> is the address of the object it refers to. \<^verbatim>\<open>operator==\<close> compares
  \<^verbatim>\<open>this\<close> with \<^verbatim>\<open>&rhs\<close>, \<^verbatim>\<open>operator!=\<close> likewise; neither reads the objects.
\<close>

type_synonym addr = nat

record 'm Mutex =
  mutex :: 'm

type_synonym 'm heap = "addr \<rightharpoonup> 'm Mutex"

definition Mutex_eq :: "'m heap \<Rightarrow> addr \<Rightarrow> addr \<Rightarrow> bool" where
  "Mutex_eq h this rhs = (this = rhs)"

definition Mutex_ne :: "'m heap \<Rightarrow> addr \<Rightarrow> addr \<Rightarrow> bool" where
  "Mutex_ne h this rhs = (this \<noteq> rhs)"

section \<open>Well-formed databases and the result of a pass, entry by entry\<close>

text \<open>
  The invariant of the database: keys strictly increasing (what \<^verbatim>\<open>std::map\<close> keeps), and
  under key \<open>k\<close> a non-empty vector of messages of track number \<open>k\<close> (what
  \<^verbatim>\<open>updateDatabase\<close> keeps: it adds a message under its own track number, and adds one
  to every vector it creates).
\<close>

definition db_inv :: "'d Mapping \<Rightarrow> bool" where
  "db_inv db = (sorted_wrt (<) (map fst db) \<and>
     list_all (\<lambda>(k, ts). ts \<noteq> [] \<and> list_all (\<lambda>t. trackNumber t = k) ts) db)"

text \<open>
  The two tests of the loop body and the two reports it builds, named, and the survivors
  and the reports of a pass computed by recursion over the entries in key order. These
  are not the loop: \<open>checkLoop_sweep\<close> proves that the loop computes them.
\<close>

definition promotable :: "'d Settings \<Rightarrow> 'd TrackMsgVector \<Rightarrow> bool" where
  "promotable P tracks = (type (last tracks) = kTentative \<and> hitsBeforePromote P \<le> length tracks)"

definition droppable :: "'d::{plus,minus,ord} \<Rightarrow> 'd \<Rightarrow> 'd \<Rightarrow> 'd TrackMsgVector \<Rightarrow> bool" where
  "droppable dropLimit ep now tracks = (now - (ep + extractionTime (last tracks)) > dropLimit)"

definition promotedReport :: "'d TrackMsgVector \<Rightarrow> 'd Track" where
  "promotedReport tracks = setFlags kPromoted (Track_Make ''TrackMaintainer'' (last tracks))"

definition droppingReport :: "'d TrackMsgVector \<Rightarrow> 'd Track" where
  "droppingReport tracks = setFlags kDropping (Track_Make ''TrackMaintainer'' (last tracks))"

definition entryReport :: "'d::{plus,minus,ord} Settings \<Rightarrow> 'd \<Rightarrow> 'd \<Rightarrow> 'd \<Rightarrow> 'd TrackMsgVector \<Rightarrow> 'd Track list" where
  "entryReport P dropLimit ep now tracks =
     (if droppable dropLimit ep now tracks then [droppingReport tracks]
      else if promotable P tracks then [promotedReport tracks]
      else [])"

fun kept :: "'d::{plus,minus,ord} \<Rightarrow> 'd \<Rightarrow> (nat \<Rightarrow> 'd) \<Rightarrow> nat \<Rightarrow> 'd Mapping \<Rightarrow> 'd Mapping" where
  "kept dropLimit ep clock n [] = []"
| "kept dropLimit ep clock n ((k, ts) # db) =
     (if droppable dropLimit ep (clock n) ts then [] else [(k, ts)])
       @ kept dropLimit ep clock (Suc n) db"

fun emitted :: "'d::{plus,minus,ord} Settings \<Rightarrow> 'd \<Rightarrow> 'd \<Rightarrow> (nat \<Rightarrow> 'd) \<Rightarrow> nat \<Rightarrow> 'd Mapping \<Rightarrow> 'd Track list" where
  "emitted P dropLimit ep clock n [] = []"
| "emitted P dropLimit ep clock n ((k, ts) # db) =
     entryReport P dropLimit ep (clock n) ts @ emitted P dropLimit ep clock (Suc n) db"

text \<open>
  Two objects with the same database that differ at most in an offset that no entry is
  left to be read with.
\<close>

definition same_behaviour :: "'d TrackMaintainer \<Rightarrow> 'd TrackMaintainer \<Rightarrow> bool" where
  "same_behaviour s t = (trackDatabase s = trackDatabase t \<and> (trackDatabase s = [] \<or> epoch s = epoch t))"

section \<open>IEEE binary64, on which the scenarios are evaluated\<close>

text \<open>
  A double is a finite number, an infinity (\<open>Infinity True\<close> is the negative one) or a NaN.
  A finite double is given by its value; the two zeros are one value, which the operations
  used here (addition, subtraction, multiplication, comparison) do not tell apart in any
  result other than the sign of a zero. \<open>rnd\<close> is rounding to nearest, ties to even, with
  53 bits of precision, gradual underflow below \<open>2 ^ -1022\<close> and overflow to infinity.
\<close>

datatype double = Finite real | Infinity bool | NaN

definition pow2 :: "int \<Rightarrow> real" where
  "pow2 e = (if 0 \<le> e then 2 ^ nat e else 1 / 2 ^ nat (- e))"

text \<open>The exponent of a positive number (see \<open>ilog2_bounds\<close>).\<close>

definition ilog2 :: "real \<Rightarrow> int" where
  "ilog2 x = (if 1 \<le> x then bitlen \<lfloor>x\<rfloor> - 1 else - bitlen (\<lceil>1 / x\<rceil> - 1))"

definition round_even :: "real \<Rightarrow> int" where
  "round_even x =
     (let f = \<lfloor>x\<rfloor>; r = x - of_int f
      in if r < 1 / 2 then f else if 1 / 2 < r then f + 1 else if even f then f else f + 1)"

definition rnd :: "real \<Rightarrow> double" where
  "rnd x =
     (if x = 0 then Finite 0
      else let q = max (ilog2 \<bar>x\<bar> - 52) (- 1074);
               y = of_int (round_even (x / pow2 q)) * pow2 q
           in if pow2 1024 \<le> \<bar>y\<bar> then Infinity (x < 0) else Finite y)"

instantiation double :: "{plus, uminus, minus, times, ord}"
begin

fun plus_double :: "double \<Rightarrow> double \<Rightarrow> double" where
  "plus_double NaN y = NaN"
| "plus_double x NaN = NaN"
| "plus_double (Infinity s) (Infinity t) = (if s = t then Infinity s else NaN)"
| "plus_double (Infinity s) (Finite b) = Infinity s"
| "plus_double (Finite a) (Infinity t) = Infinity t"
| "plus_double (Finite a) (Finite b) = rnd (a + b)"

fun uminus_double :: "double \<Rightarrow> double" where
  "uminus_double NaN = NaN"
| "uminus_double (Infinity s) = Infinity (\<not> s)"
| "uminus_double (Finite a) = Finite (- a)"

definition minus_double :: "double \<Rightarrow> double \<Rightarrow> double" where
  "minus_double x y = x + (- y)"

fun times_double :: "double \<Rightarrow> double \<Rightarrow> double" where
  "times_double NaN y = NaN"
| "times_double x NaN = NaN"
| "times_double (Infinity s) (Infinity t) = Infinity (s \<noteq> t)"
| "times_double (Infinity s) (Finite b) = (if b = 0 then NaN else Infinity (s \<noteq> (b < 0)))"
| "times_double (Finite a) (Infinity t) = (if a = 0 then NaN else Infinity ((a < 0) \<noteq> t))"
| "times_double (Finite a) (Finite b) = rnd (a * b)"

fun less_double :: "double \<Rightarrow> double \<Rightarrow> bool" where
  "less_double NaN y = False"
| "less_double x NaN = False"
| "less_double (Infinity s) (Infinity t) = (s \<and> \<not> t)"
| "less_double (Infinity s) (Finite b) = s"
| "less_double (Finite a) (Infinity t) = (\<not> t)"
| "less_double (Finite a) (Finite b) = (a < b)"

fun less_eq_double :: "double \<Rightarrow> double \<Rightarrow> bool" where
  "less_eq_double NaN y = False"
| "less_eq_double x NaN = False"
| "less_eq_double (Infinity s) (Infinity t) = (s \<or> \<not> t)"
| "less_eq_double (Infinity s) (Finite b) = s"
| "less_eq_double (Finite a) (Infinity t) = (\<not> t)"
| "less_eq_double (Finite a) (Finite b) = (a \<le> b)"

instance ..

end

text \<open>The conversion of a count to double.\<close>

definition double_of_nat :: "nat \<Rightarrow> double" where
  "double_of_nat n = rnd (real n)"

section \<open>The scenarios of the specification\<close>

text \<open>
  Track 7 is reported once, with extraction time 2, at wall time 95; track 42 three times
  as tentative, with extraction time 10, at wall time 100. Three hits promote; the drop
  limit is two rotations of 4 seconds. All the numbers of this scenario and all the results
  of its arithmetic are small whole numbers.
\<close>

definition track7 :: "double Track" where
  "track7 = \<lparr>producer = ''ABTracker'', trackNumber = 7, flags = kNew, type = kConfirmed,
              extractionTime = Finite 2\<rparr>"

definition track42 :: "double Track" where
  "track42 = \<lparr>producer = ''ABTracker'', trackNumber = 42, flags = kCorrected, type = kTentative,
               extractionTime = Finite 10\<rparr>"

definition settings :: "double Settings" where
  "settings = \<lparr>hitsBeforePromote = 3, missesBeforeDrop = 2, rotationDuration = Finite 4\<rparr>"

definition created :: "double TrackMaintainer" where
  "created = \<lparr>trackDatabase = [], epoch = Finite 0\<rparr>"

definition observed :: "double TrackMaintainer" where
  "observed = fst (run double_of_nat
                     [ProcessInput (Finite 95) track7, ProcessInput (Finite 100) track42,
                      ProcessInput (Finite 100) track42, ProcessInput (Finite 100) track42] created)"

text \<open>
  A scenario in which rounding decides. Track 1, tentative, was extracted at 90090.049; the
  offset is 1700558884.504, the clock reads 1700648982.553 (each the double nearest to
  the decimal), one hit promotes and the limit is again two rotations of 4 seconds. The
  difference of the three decimals is 8; the difference of the three doubles is above 8
  by 213 / 2 ^ 33; the difference the machine computes is the double 8, which does not
  exceed the limit.
\<close>

definition track1 :: "double Track" where
  "track1 = \<lparr>producer = ''ABTracker'', trackNumber = 1, flags = kNew, type = kTentative,
              extractionTime = rnd (90090049 / 1000)\<rparr>"

definition settings1 :: "double Settings" where
  "settings1 = \<lparr>hitsBeforePromote = 1, missesBeforeDrop = 2, rotationDuration = Finite 4\<rparr>"

definition at_limit :: "double TrackMaintainer" where
  "at_limit = \<lparr>trackDatabase = [(1, [track1])], epoch = rnd (1700558884504 / 1000)\<rparr>"

definition clock_at_limit :: "nat \<Rightarrow> double" where
  "clock_at_limit n = rnd (1700648982553 / 1000)"

section \<open>The loop visits the entries in key order\<close>

lemma db_find_mid:
  assumes "sorted_wrt (<) (map fst (pre @ (k, ts) # rest))"
  shows "db_find (pre @ (k, ts) # rest) k = Some ts"
proof -
  have "k \<notin> fst ` set pre"
    using assms by (auto simp: sorted_wrt_append)
  then have "map_of pre k = None"
    by (simp add: map_of_eq_None_iff)
  then show ?thesis
    by (simp add: db_find_def map_add_def)
qed

lemma db_next_mid:
  assumes "sorted_wrt (<) (map fst (pre @ (k, ts) # rest))"
  shows "db_next (pre @ (k, ts) # rest) k = db_begin rest"
proof -
  have pre: "\<forall>e \<in> set pre. \<not> (case e of (k', _) \<Rightarrow> k < k')"
    using assms by (auto simp: sorted_wrt_append)
  have rest: "\<forall>e \<in> set rest. (case e of (k', _) \<Rightarrow> k < k')"
    using assms by (auto simp: sorted_wrt_append)
  have "find (\<lambda>(k', _). k < k') (pre @ (k, ts) # rest) = find (\<lambda>(k', _). k < k') rest"
    using pre by (induction pre) auto
  also have "\<dots> = (case rest of [] \<Rightarrow> None | e # _ \<Rightarrow> Some e)"
    using rest by (cases rest) auto
  finally show ?thesis
    by (auto simp: db_next_def db_begin_def split: list.splits)
qed

lemma db_erase_mid:
  assumes "sorted_wrt (<) (map fst (pre @ (k, ts) # rest))"
  shows "db_erase k (pre @ (k, ts) # rest) = pre @ rest"
proof -
  have "\<forall>e \<in> set (pre @ rest). (case e of (k', _) \<Rightarrow> k' \<noteq> k)"
    using assms by (auto simp: sorted_wrt_append)
  then have "filter (\<lambda>(k', _). k' \<noteq> k) (pre @ rest) = pre @ rest"
    by (simp only: filter_id_conv)
  then show ?thesis
    by (simp add: db_erase_def)
qed

declare checkLoop.simps(2) [simp del]

lemma checkLoop_sweep:
  assumes "sorted_wrt (<) (map fst (pre @ rest))" and "trackDatabase st = pre @ rest"
  shows "checkLoop P dropLimit clock n (db_begin rest) st out visited =
           (st\<lparr>trackDatabase := pre @ kept dropLimit (epoch st) clock n rest\<rparr>,
            out @ emitted P dropLimit (epoch st) clock n rest,
            visited @ map fst rest)"
  using assms
proof (induction rest arbitrary: pre n st out visited)
  case Nil
  then show ?case by (simp add: db_begin_def)
next
  case (Cons e rest)
  obtain k ts where e: "e = (k, ts)" by (cases e)
  have srt: "sorted_wrt (<) (map fst (pre @ (k, ts) # rest))"
    using Cons.prems(1) e by simp
  have db: "trackDatabase st = pre @ (k, ts) # rest"
    using Cons.prems(2) e by simp
  have beg: "db_begin ((k, ts) # rest) = Some k"
    by (simp add: db_begin_def)
  note facts = db_find_mid [OF srt] db_next_mid [OF srt] db_erase_mid [OF srt]
  show ?case
  proof (cases "droppable dropLimit (epoch st) (clock n) ts")
    case True
    have s2: "sorted_wrt (<) (map fst (pre @ rest))"
      using srt by (auto simp: sorted_wrt_append)
    have "checkLoop P dropLimit clock n (Some k) st out visited =
          checkLoop P dropLimit clock (Suc n) (db_begin rest) (st\<lparr>trackDatabase := pre @ rest\<rparr>)
            (out @ [droppingReport ts]) (visited @ [k])"
      using True by (simp add: checkLoop.simps(2) db facts droppable_def droppingReport_def Let_def)
    also have "\<dots> = (st\<lparr>trackDatabase := pre @ kept dropLimit (epoch st) clock (Suc n) rest\<rparr>,
            (out @ [droppingReport ts]) @ emitted P dropLimit (epoch st) clock (Suc n) rest,
            (visited @ [k]) @ map fst rest)"
      using Cons.IH [OF s2, of "st\<lparr>trackDatabase := pre @ rest\<rparr>" "Suc n"] by simp
    finally show ?thesis
      using True by (simp add: beg e entryReport_def)
  next
    case False
    have s2: "sorted_wrt (<) (map fst ((pre @ [(k, ts)]) @ rest))"
      using srt by simp
    have db2: "trackDatabase st = (pre @ [(k, ts)]) @ rest"
      using db by simp
    have "checkLoop P dropLimit clock n (Some k) st out visited =
          checkLoop P dropLimit clock (Suc n) (db_begin rest) st
            (out @ entryReport P dropLimit (epoch st) (clock n) ts) (visited @ [k])"
      using False
      by (simp add: checkLoop.simps(2) db facts droppable_def entryReport_def promotable_def
          promotedReport_def Let_def)
    also have "\<dots> = (st\<lparr>trackDatabase := (pre @ [(k, ts)]) @ kept dropLimit (epoch st) clock (Suc n) rest\<rparr>,
            (out @ entryReport P dropLimit (epoch st) (clock n) ts)
               @ emitted P dropLimit (epoch st) clock (Suc n) rest,
            (visited @ [k]) @ map fst rest)"
      using Cons.IH [OF s2 db2] by simp
    finally show ?thesis
      using False by (simp add: beg e)
  qed
qed

lemma checkDatabase_sweep:
  assumes "sorted_wrt (<) (map fst (trackDatabase st))"
  shows "checkDatabase toDouble P clock st =
           (st\<lparr>trackDatabase :=
                 kept (rotationDuration P * toDouble (missesBeforeDrop P)) (epoch st) clock 0 (trackDatabase st)\<rparr>,
            emitted P (rotationDuration P * toDouble (missesBeforeDrop P)) (epoch st) clock 0 (trackDatabase st),
            map fst (trackDatabase st))"
  using checkLoop_sweep [of "[]" "trackDatabase st" st P _ clock 0 "[]" "[]"] assms
  by (simp add: checkDatabase_def Let_def)

lemma set_kept: "e \<in> set (kept dl ep clock n db) \<Longrightarrow> e \<in> set db"
  by (induction db arbitrary: n) (fastforce split: if_splits)+

lemma sorted_kept:
  "sorted_wrt (<) (map fst db) \<Longrightarrow> sorted_wrt (<) (map fst (kept dl ep clock n db))"
proof (induction db arbitrary: n)
  case Nil
  then show ?case by simp
next
  case (Cons e db)
  obtain k ts where e: "e = (k, ts)" by (cases e)
  have "\<forall>x \<in> set (kept dl ep clock (Suc n) db). k < fst x"
    using Cons.prems set_kept [of _ dl ep clock "Suc n" db] e by auto
  then show ?case
    using Cons e by auto
qed

lemma db_inv_kept: "db_inv db \<Longrightarrow> db_inv (kept dl ep clock n db)"
  using set_kept [of _ dl ep clock n db] sorted_kept [of db dl ep clock n]
  unfolding db_inv_def list_all_iff by blast

lemma kept_find:
  assumes "sorted_wrt (<) (map fst db)" and "i < length db" and "db ! i = (k, ts)"
  shows "db_find (kept dl ep clock n db) k =
           (if droppable dl ep (clock (n + i)) ts then None else Some ts)"
  using assms
proof (induction db arbitrary: n i)
  case Nil
  then show ?case by simp
next
  case (Cons e db)
  obtain k' ts' where e: "e = (k', ts')" by (cases e)
  show ?case
  proof (cases i)
    case 0
    then have same: "k' = k" "ts' = ts"
      using Cons.prems(3) e by auto
    have "k \<notin> fst ` set (kept dl ep clock (Suc n) db)"
      using Cons.prems(1) e same set_kept [of _ dl ep clock "Suc n" db] by auto
    then have "map_of (kept dl ep clock (Suc n) db) k = None"
      by (simp add: map_of_eq_None_iff)
    then show ?thesis
      using 0 e same by (simp add: db_find_def)
  next
    case (Suc j)
    then have j: "j < length db" "db ! j = (k, ts)"
      using Cons.prems by auto
    have "sorted_wrt (<) (map fst db)"
      using Cons.prems(1) by simp
    from Cons.IH [OF this j, of "Suc n"]
    have ih: "db_find (kept dl ep clock (Suc n) db) k =
                (if droppable dl ep (clock (n + i)) ts then None else Some ts)"
      using Suc by simp
    have "(k, ts) \<in> set db"
      using j nth_mem by metis
    then have "k' < k"
      using Cons.prems(1) e by auto
    then show ?thesis
      using ih e by (simp add: db_find_def)
  qed
qed

lemma entryReport_key:
  assumes "ts \<noteq> []" and "list_all (\<lambda>t. trackNumber t = k) ts" and "r \<in> set (entryReport P dl ep now ts)"
  shows "trackNumber r = k"
proof -
  have "trackNumber (last ts) = k"
    using assms(1,2) by (simp add: list_all_iff)
  then show ?thesis
    using assms(3)
    by (auto simp: entryReport_def droppingReport_def promotedReport_def setFlags_def Track_Make_def
        split: if_splits)
qed

lemma emitted_keys:
  assumes "db_inv db" and "r \<in> set (emitted P dl ep clock n db)"
  shows "trackNumber r \<in> fst ` set db"
  using assms
proof (induction db arbitrary: n)
  case Nil
  then show ?case by simp
next
  case (Cons e db)
  obtain k ts where e: "e = (k, ts)" by (cases e)
  have inv: "db_inv db" and ts: "ts \<noteq> []" "list_all (\<lambda>t. trackNumber t = k) ts"
    using Cons.prems(1) e by (auto simp: db_inv_def)
  from Cons.prems(2) e
  consider "r \<in> set (entryReport P dl ep (clock n) ts)" | "r \<in> set (emitted P dl ep clock (Suc n) db)"
    by auto
  then show ?case
  proof cases
    case 1
    then show ?thesis using entryReport_key [OF ts] e by simp
  next
    case 2
    then show ?thesis using Cons.IH [OF inv] by auto
  qed
qed

lemma emitted_for_key:
  assumes "db_inv db" and "i < length db" and "db ! i = (k, ts)"
  shows "filter (\<lambda>r. trackNumber r = k) (emitted P dl ep clock n db)
           = entryReport P dl ep (clock (n + i)) ts"
  using assms
proof (induction db arbitrary: n i)
  case Nil
  then show ?case by simp
next
  case (Cons e db)
  obtain k' ts' where e: "e = (k', ts')" by (cases e)
  have inv: "db_inv db" and ts': "ts' \<noteq> []" "list_all (\<lambda>t. trackNumber t = k') ts'"
    and above: "\<forall>x \<in> set db. k' < fst x"
    using Cons.prems(1) e by (auto simp: db_inv_def)
  show ?case
  proof (cases i)
    case 0
    then have same: "k' = k" "ts' = ts"
      using Cons.prems(3) e by auto
    have "\<forall>r \<in> set (emitted P dl ep clock (Suc n) db). trackNumber r \<noteq> k"
      using emitted_keys [OF inv] above same by fastforce
    then have rest: "filter (\<lambda>r. trackNumber r = k) (emitted P dl ep clock (Suc n) db) = []"
      by (simp add: filter_empty_conv)
    have "\<forall>r \<in> set (entryReport P dl ep (clock n) ts). trackNumber r = k"
      using entryReport_key [OF ts'] same by blast
    then have "filter (\<lambda>r. trackNumber r = k) (entryReport P dl ep (clock n) ts)
                 = entryReport P dl ep (clock n) ts"
      by (simp only: filter_id_conv)
    then show ?thesis
      using rest 0 e same by simp
  next
    case (Suc j)
    then have j: "j < length db" "db ! j = (k, ts)"
      using Cons.prems by auto
    have "(k, ts) \<in> set db"
      using j nth_mem by metis
    then have "k' \<noteq> k"
      using above by auto
    then have "\<forall>r \<in> set (entryReport P dl ep (clock n) ts'). trackNumber r \<noteq> k"
      using entryReport_key [OF ts'] by blast
    then have "filter (\<lambda>r. trackNumber r = k) (entryReport P dl ep (clock n) ts') = []"
      by (simp add: filter_empty_conv)
    then show ?thesis
      using Cons.IH [OF inv j, of "Suc n"] Suc e by simp
  qed
qed

section \<open>What a pass does to one entry, and what it leaves alone\<close>

lemma checkDatabase_entry:
  assumes inv: "db_inv (trackDatabase st)"
    and i: "i < length (trackDatabase st)" "trackDatabase st ! i = (k, tracks)"
    and pass: "checkDatabase toDouble P clock st = (st', out, visited)"
  shows "filter (\<lambda>r. trackNumber r = k) out
           = entryReport P (rotationDuration P * toDouble (missesBeforeDrop P)) (epoch st) (clock i) tracks"
    and "db_find (trackDatabase st') k
           = (if droppable (rotationDuration P * toDouble (missesBeforeDrop P)) (epoch st) (clock i) tracks
              then None else Some tracks)"
proof -
  have srt: "sorted_wrt (<) (map fst (trackDatabase st))"
    using inv by (simp add: db_inv_def)
  note eq = pass [unfolded checkDatabase_sweep [OF srt]]
  show "filter (\<lambda>r. trackNumber r = k) out
           = entryReport P (rotationDuration P * toDouble (missesBeforeDrop P)) (epoch st) (clock i) tracks"
    using emitted_for_key [OF inv i, of P _ "epoch st" clock 0] eq by auto
  show "db_find (trackDatabase st') k
           = (if droppable (rotationDuration P * toDouble (missesBeforeDrop P)) (epoch st) (clock i) tracks
              then None else Some tracks)"
    using kept_find [OF srt i, of _ "epoch st" clock 0] eq by auto
qed

lemma checkDatabase_frame:
  assumes srt: "sorted_wrt (<) (map fst (trackDatabase st))"
    and pass: "checkDatabase toDouble P clock st = (st', out, visited)"
  shows "epoch st' = epoch st"
    and "set (trackDatabase st') \<subseteq> set (trackDatabase st)"
    and "sorted_wrt (<) (map fst (trackDatabase st'))"
    and "visited = map fst (trackDatabase st)"
proof -
  note eq = pass [unfolded checkDatabase_sweep [OF srt]]
  show "epoch st' = epoch st" using eq by auto
  show "set (trackDatabase st') \<subseteq> set (trackDatabase st)"
    using eq set_kept by auto
  show "sorted_wrt (<) (map fst (trackDatabase st'))"
    using eq sorted_kept [OF srt] by auto
  show "visited = map fst (trackDatabase st)" using eq by simp
qed

lemma db_inv_checkDatabase:
  assumes "db_inv (trackDatabase st)" and "checkDatabase toDouble P clock st = (st', out, visited)"
  shows "db_inv (trackDatabase st')"
proof -
  have srt: "sorted_wrt (<) (map fst (trackDatabase st))"
    using assms(1) by (simp add: db_inv_def)
  show ?thesis
    using assms(2) [unfolded checkDatabase_sweep [OF srt]] db_inv_kept [OF assms(1)] by auto
qed

lemma checkDatabase_out_keys:
  assumes "db_inv (trackDatabase st)" and "checkDatabase toDouble P clock st = (st', out, visited)"
    and "r \<in> set out"
  shows "trackNumber r \<in> fst ` set (trackDatabase st)"
proof -
  have srt: "sorted_wrt (<) (map fst (trackDatabase st))"
    using assms(1) by (simp add: db_inv_def)
  show ?thesis
    using assms(2) [unfolded checkDatabase_sweep [OF srt]] emitted_keys [OF assms(1)] assms(3) by auto
qed

lemma sorted_db_find:
  assumes "sorted_wrt (<) (map fst db)"
  shows "db_find db k = Some ts \<longleftrightarrow> (k, ts) \<in> set db"
proof -
  have "distinct (map fst db)"
    using assms by (simp add: strict_sorted_iff)
  then show ?thesis
    by (simp add: db_find_def)
qed

section \<open>The offset over a sequence of calls\<close>

lemma checkLoop_epoch: "epoch (fst (checkLoop P dl clock n it st out visited)) = epoch st"
proof (induction P dl clock n it st out visited rule: checkLoop.induct)
  case (1 P dropLimit clock n st out visited)
  then show ?case by simp
next
  case (2 P dropLimit clock n k st out visited)
  show ?case
  proof (cases "db_find (trackDatabase st) k")
    case None
    then show ?thesis by (simp add: checkLoop.simps(2))
  next
    case (Some tracks)
    show ?thesis
      using "2.IH" [OF Some refl refl refl refl refl refl refl refl]
      by (simp add: checkLoop.simps(2) Some Let_def)
  qed
qed

lemma checkDatabase_epoch: "epoch (fst (checkDatabase toDouble P clock st)) = epoch st"
  by (simp add: checkDatabase_def Let_def checkLoop_epoch)

lemma checkDatabase_empty:
  "trackDatabase st = [] \<Longrightarrow> checkDatabase toDouble P clock st = (st, [], [])"
  by (simp add: checkDatabase_def db_begin_def)

lemma run_Cons:
  "run toDouble (c # cs) st = (fst (run toDouble cs (fst (exec toDouble c st))), snd (exec toDouble c st) # snd (run toDouble cs (fst (exec toDouble c st))))"
  by (simp split: prod.splits)

lemma exec_ProcessAlarm:
  "exec toDouble (ProcessAlarm P clock) st =
     (fst (checkDatabase toDouble P clock st),
      Sent (fst (snd (checkDatabase toDouble P clock st))) (snd (snd (checkDatabase toDouble P clock st))))"
  by (simp split: prod.splits)

lemma run_append:
  "run toDouble (cs @ ds) st =
     (fst (run toDouble ds (fst (run toDouble cs st))),
      snd (run toDouble cs st) @ snd (run toDouble ds (fst (run toDouble cs st))))"
  by (induction cs arbitrary: st) (simp_all add: run_Cons del: run.simps(2))

lemma exec_epoch: "\<not> accepted c \<Longrightarrow> epoch (fst (exec toDouble c st)) = epoch st"
proof (cases c)
  case (ProcessInput now msg)
  assume "\<not> accepted c"
  then show ?thesis using ProcessInput by (simp add: processInput_def)
next
  case (ProcessAlarm P clock)
  then show ?thesis
    using checkDatabase_epoch [of toDouble P clock st] by (simp add: exec_ProcessAlarm del: exec.simps(2))
next
  case (Reset super)
  then show ?thesis by (simp add: reset_def)
qed

lemma run_epoch: "list_all (\<lambda>c. \<not> accepted c) cs \<Longrightarrow> epoch (fst (run toDouble cs st)) = epoch st"
proof (induction cs arbitrary: st)
  case Nil
  then show ?case by simp
next
  case (Cons c cs)
  then have "epoch (fst (run toDouble cs (fst (exec toDouble c st)))) = epoch st"
    using exec_epoch [of c toDouble st] by simp
  then show ?case by (simp add: run_Cons del: run.simps(2))
qed

lemma updateDatabase_epoch: "epoch (updateDatabase now msg st) = now - extractionTime msg"
  by (simp add: updateDatabase_def Let_def)

section \<open>What \<^verbatim>\<open>updateDatabase\<close> does to the database; the invariant is kept\<close>

lemma db_find_insert:
  "db_find db k = None \<Longrightarrow> db_find (db_insert (k, v) db) k = Some v"
  by (induction db) (auto simp: db_find_def split: if_splits)

lemma db_find_insert_other:
  "k' \<noteq> k \<Longrightarrow> db_find (db_insert (k, v) db) k' = db_find db k'"
  by (induction db) (auto simp: db_find_def)

lemma db_find_push_back:
  "db_find (db_push_back k msg db) k' =
     (if k' = k then map_option (\<lambda>ts. ts @ [msg]) (db_find db k) else db_find db k')"
  by (induction db) (auto simp: db_find_def db_push_back_def)

lemma updateDatabase_find:
  "db_find (trackDatabase (updateDatabase now msg st)) k =
     (if k = trackNumber msg
      then Some ((case db_find (trackDatabase st) k of None \<Rightarrow> [] | Some ts \<Rightarrow> ts) @ [msg])
      else db_find (trackDatabase st) k)"
  by (auto simp: updateDatabase_def Let_def db_find_push_back db_find_insert db_find_insert_other
      split: option.splits)

lemma updateDatabase_changes: "trackDatabase (updateDatabase now msg st) \<noteq> trackDatabase st"
proof
  assume "trackDatabase (updateDatabase now msg st) = trackDatabase st"
  then have "db_find (trackDatabase (updateDatabase now msg st)) (trackNumber msg)
               = db_find (trackDatabase st) (trackNumber msg)"
    by simp
  then show False
    by (simp add: updateDatabase_find split: option.splits)
qed

lemma set_db_insert: "e \<in> set (db_insert (k, v) db) \<Longrightarrow> e = (k, v) \<or> e \<in> set db"
  by (induction db) (auto split: if_splits)

lemma keys_db_insert: "fst ` set (db_insert (k, v) db) = insert k (fst ` set db)"
proof (induction db)
  case Nil
  then show ?case by simp
next
  case (Cons e db)
  obtain k' v' where e: "e = (k', v')" by (cases e)
  show ?case
    using Cons.IH by (simp add: e insert_commute)
qed

lemma sorted_db_insert:
  "sorted_wrt (<) (map fst db) \<Longrightarrow> sorted_wrt (<) (map fst (db_insert (k, v) db))"
proof (induction db)
  case Nil
  then show ?case by simp
next
  case (Cons e db)
  obtain k' v' where e: "e = (k', v')" by (cases e)
  show ?case
  proof (cases "k < k'")
    case True
    then show ?thesis using Cons.prems e by auto
  next
    case False
    show ?thesis
    proof (cases "k = k'")
      case True
      then show ?thesis using Cons.prems e by simp
    next
      case ne: False
      then have "k' < k" using False by simp
      moreover have "\<forall>x \<in> fst ` set db. k' < x" using Cons.prems e by auto
      ultimately have "\<forall>x \<in> fst ` set (db_insert (k, v) db). k' < x"
        by (simp add: keys_db_insert)
      then show ?thesis
        using Cons e False ne by auto
    qed
  qed
qed

lemma map_fst_push_back: "map fst (db_push_back k msg db) = map fst db"
  by (induction db) (auto simp: db_push_back_def)

lemma in_push_back:
  assumes "(k', ts) \<in> set (db_push_back k msg db)"
  shows "\<exists>ts0. (k', ts0) \<in> set db \<and> ts = (if k' = k then ts0 @ [msg] else ts0)"
proof -
  from assms obtain e where e: "e \<in> set db"
    and eq: "(k', ts) = (case e of (k'', ts'') \<Rightarrow> if k'' = k then (k'', ts'' @ [msg]) else (k'', ts''))"
    unfolding db_push_back_def by auto
  obtain a b where ab: "e = (a, b)" by (cases e)
  have "k' = a" and "ts = (if a = k then b @ [msg] else b)"
    using eq ab by (simp_all split: if_splits)
  then show ?thesis
    using e ab by auto
qed

lemma updateDatabase_db:
  "trackDatabase (updateDatabase now msg st) =
     db_push_back (trackNumber msg) msg
       (case db_find (trackDatabase st) (trackNumber msg) of
          None \<Rightarrow> db_insert (trackNumber msg, []) (trackDatabase st)
        | Some _ \<Rightarrow> trackDatabase st)"
  by (simp add: updateDatabase_def Let_def)

lemma sorted_updateDatabase:
  assumes "sorted_wrt (<) (map fst (trackDatabase st))"
  shows "sorted_wrt (<) (map fst (trackDatabase (updateDatabase now msg st)))"
proof (cases "db_find (trackDatabase st) (trackNumber msg)")
  case None
  then show ?thesis
    using sorted_db_insert [OF assms, of "trackNumber msg" "[]"]
    by (simp only: updateDatabase_db map_fst_push_back option.case)
next
  case (Some a)
  then show ?thesis
    using assms by (simp only: updateDatabase_db map_fst_push_back option.case)
qed

lemma entries_updateDatabase:
  assumes ok: "\<And>k ts. (k, ts) \<in> set (trackDatabase st) \<Longrightarrow> ts \<noteq> [] \<and> (\<forall>t \<in> set ts. trackNumber t = k)"
    and mem: "(k', ts) \<in> set (trackDatabase (updateDatabase now msg st))"
  shows "ts \<noteq> [] \<and> (\<forall>t \<in> set ts. trackNumber t = k')"
proof -
  let ?db1 = "case db_find (trackDatabase st) (trackNumber msg) of
                None \<Rightarrow> db_insert (trackNumber msg, []) (trackDatabase st)
              | Some _ \<Rightarrow> trackDatabase st"
  from mem have "(k', ts) \<in> set (db_push_back (trackNumber msg) msg ?db1)"
    by (simp only: updateDatabase_db)
  from in_push_back [OF this]
  obtain ts0 where ts0: "(k', ts0) \<in> set ?db1"
    and ts: "ts = (if k' = trackNumber msg then ts0 @ [msg] else ts0)"
    by blast
  have "(k', ts0) = (trackNumber msg, []) \<or> (k', ts0) \<in> set (trackDatabase st)"
  proof (cases "db_find (trackDatabase st) (trackNumber msg)")
    case None
    then have "(k', ts0) \<in> set (db_insert (trackNumber msg, []) (trackDatabase st))"
      using ts0 by simp
    then show ?thesis
      by (rule set_db_insert)
  next
    case (Some a)
    then show ?thesis
      using ts0 by simp
  qed
  then show ?thesis
  proof
    assume "(k', ts0) = (trackNumber msg, [])"
    then show ?thesis using ts by simp
  next
    assume "(k', ts0) \<in> set (trackDatabase st)"
    from ok [OF this] show ?thesis using ts by auto
  qed
qed

lemma db_inv_updateDatabase:
  assumes "db_inv (trackDatabase st)"
  shows "db_inv (trackDatabase (updateDatabase now msg st))"
proof -
  have "sorted_wrt (<) (map fst (trackDatabase (updateDatabase now msg st)))"
    using assms sorted_updateDatabase [of st now msg] by (simp add: db_inv_def)
  moreover have "ts \<noteq> [] \<and> (\<forall>t \<in> set ts. trackNumber t = k')"
    if "(k', ts) \<in> set (trackDatabase (updateDatabase now msg st))" for k' ts
  proof (rule entries_updateDatabase [OF _ that])
    fix k ts
    assume "(k, ts) \<in> set (trackDatabase st)"
    then show "ts \<noteq> [] \<and> (\<forall>t \<in> set ts. trackNumber t = k)"
      using assms unfolding db_inv_def list_all_iff by blast
  qed
  ultimately show ?thesis
    unfolding db_inv_def list_all_iff by blast
qed

lemma db_inv_exec:
  assumes "db_inv (trackDatabase st)"
  shows "db_inv (trackDatabase (fst (exec toDouble c st)))"
proof (cases c)
  case (ProcessInput now msg)
  then show ?thesis
    using assms db_inv_updateDatabase [of st now msg] by (simp add: processInput_def)
next
  case (ProcessAlarm P clock)
  then show ?thesis
    using db_inv_checkDatabase [OF assms, of toDouble P clock "fst (checkDatabase toDouble P clock st)"
        "fst (snd (checkDatabase toDouble P clock st))" "snd (snd (checkDatabase toDouble P clock st))"]
    by (simp add: exec_ProcessAlarm del: exec.simps(2))
next
  case (Reset super)
  then show ?thesis by (simp add: reset_def db_inv_def)
qed

lemma db_inv_run:
  "db_inv (trackDatabase st) \<Longrightarrow> db_inv (trackDatabase (fst (run toDouble cs st)))"
  by (induction cs arbitrary: st) (simp_all add: run_Cons db_inv_exec del: run.simps(2))

section \<open>A second pass at the same clock reading; objects that behave alike\<close>

lemma kept_same_clock:
  "kept dl ep (\<lambda>_. now) m (kept dl ep (\<lambda>_. now) n db) = kept dl ep (\<lambda>_. now) n db"
proof (induction db arbitrary: m n)
  case Nil
  then show ?case by simp
next
  case (Cons e db)
  obtain k ts where e: "e = (k, ts)" by (cases e)
  show ?case
    using Cons.IH by (cases "droppable dl ep now ts") (simp_all add: e)
qed

lemma emitted_same_clock:
  "emitted P dl ep (\<lambda>_. now) m (kept dl ep (\<lambda>_. now) n db)
     = filter (\<lambda>r. flags r = kPromoted) (emitted P dl ep (\<lambda>_. now) n db)"
proof (induction db arbitrary: m n)
  case Nil
  then show ?case by simp
next
  case (Cons e db)
  obtain k ts where e: "e = (k, ts)" by (cases e)
  show ?case
  proof (cases "droppable dl ep now ts")
    case True
    then show ?thesis
      using Cons.IH by (simp add: e entryReport_def droppingReport_def setFlags_def)
  next
    case False
    then show ?thesis
      using Cons.IH by (simp add: e entryReport_def promotedReport_def setFlags_def)
  qed
qed

lemma same_behaviour_exec:
  assumes "same_behaviour s t"
  shows "same_behaviour (fst (exec toDouble c s)) (fst (exec toDouble c t)) \<and> snd (exec toDouble c s) = snd (exec toDouble c t)"
proof (cases "trackDatabase s = []")
  case True
  then have t: "trackDatabase t = []"
    using assms by (simp add: same_behaviour_def)
  show ?thesis
  proof (cases c)
    case (ProcessInput now msg)
    then show ?thesis
      using assms True t
      by (simp add: processInput_def same_behaviour_def updateDatabase_def Let_def)
  next
    case (ProcessAlarm P clock)
    then show ?thesis
      using assms by (simp add: checkDatabase_empty True t)
  next
    case (Reset super)
    then show ?thesis by (simp add: reset_def same_behaviour_def)
  qed
next
  case False
  then have "s = t"
    using assms by (simp add: same_behaviour_def)
  then show ?thesis
    by (simp add: same_behaviour_def)
qed

lemma same_behaviour_run:
  "same_behaviour s t \<Longrightarrow>
     same_behaviour (fst (run toDouble cs s)) (fst (run toDouble cs t))
     \<and> snd (run toDouble cs s) = snd (run toDouble cs t)"
proof (induction cs arbitrary: s t)
  case Nil
  then show ?case by simp
next
  case (Cons c cs)
  from same_behaviour_exec [OF Cons.prems, of toDouble c]
  have step: "same_behaviour (fst (exec toDouble c s)) (fst (exec toDouble c t))" and out: "snd (exec toDouble c s) = snd (exec toDouble c t)"
    by simp_all
  from Cons.IH [OF step] out show ?case
    by (simp add: run_Cons del: run.simps(2))
qed

section \<open>The rounding of binary64\<close>

lemma pow2_nonneg: "0 \<le> e \<Longrightarrow> pow2 e = 2 ^ nat e"
  by (simp add: pow2_def)

lemma pow2_neg: "0 < e \<Longrightarrow> pow2 (- e) = 1 / 2 ^ nat e"
  by (simp add: pow2_def)

text \<open>\<open>ilog2\<close> is the exponent: the power of two at or below a positive number.\<close>

lemma ilog2_bounds:
  assumes "0 < x"
  shows "pow2 (ilog2 x) \<le> x \<and> x < pow2 (ilog2 x + 1)"
proof (cases "1 \<le> x")
  case True
  define n where "n = \<lfloor>x\<rfloor>"
  have "1 \<le> n"
    using True unfolding n_def by (simp add: le_floor_iff)
  then have n: "0 < n" "of_int n \<le> x" "x < of_int n + 1"
    unfolding n_def by linarith+
  have b: "2 ^ nat (bitlen n - 1) \<le> n" "n < 2 ^ nat (bitlen n)"
    using bitlen_bounds [OF n(1)] by simp_all
  have pos: "0 < bitlen n"
    using b(2) n(1) by (cases "0 < bitlen n") simp_all
  have "(2::real) ^ nat (bitlen n - 1) \<le> of_int n"
  proof -
    have "real_of_int (2 ^ nat (bitlen n - 1)) \<le> real_of_int n"
      using b(1) by (simp only: of_int_le_iff)
    then show ?thesis by simp
  qed
  then have lo: "(2::real) ^ nat (bitlen n - 1) \<le> x"
    using n(2) by linarith
  have "of_int n + 1 \<le> (2::real) ^ nat (bitlen n)"
  proof -
    have "n + 1 \<le> 2 ^ nat (bitlen n)"
      using b(2) by simp
    then have "real_of_int (n + 1) \<le> real_of_int (2 ^ nat (bitlen n))"
      by (simp only: of_int_le_iff)
    then show ?thesis by simp
  qed
  then have hi: "x < (2::real) ^ nat (bitlen n)"
    using n(3) by linarith
  have e: "ilog2 x = bitlen n - 1"
    using True by (simp add: ilog2_def n_def)
  have p1: "pow2 (bitlen n - 1) = 2 ^ nat (bitlen n - 1)"
    using pos by (simp add: pow2_def)
  have p2: "pow2 (bitlen n - 1 + 1) = 2 ^ nat (bitlen n)"
    using pos by (simp add: pow2_def)
  show ?thesis
    unfolding e p1 p2 using lo hi by blast
next
  case False
  define m where "m = \<lceil>1 / x\<rceil> - 1"
  have y: "1 < 1 / x"
    using assms False by simp
  have "1 < \<lceil>1 / x\<rceil>"
    using y by (simp add: less_ceiling_iff)
  then have m: "0 < m" "of_int m < 1 / x" "1 / x \<le> of_int m + 1"
    unfolding m_def by linarith+
  have b: "2 ^ nat (bitlen m - 1) \<le> m" "m < 2 ^ nat (bitlen m)"
    using bitlen_bounds [OF m(1)] by simp_all
  have pos: "0 < bitlen m"
    using b(2) m(1) by (cases "0 < bitlen m") simp_all
  have lo: "(2::real) ^ nat (bitlen m - 1) \<le> of_int m"
  proof -
    have "real_of_int (2 ^ nat (bitlen m - 1)) \<le> real_of_int m"
      using b(1) by (simp only: of_int_le_iff)
    then show ?thesis by simp
  qed
  have hi: "of_int m + 1 \<le> (2::real) ^ nat (bitlen m)"
  proof -
    have "m + 1 \<le> 2 ^ nat (bitlen m)"
      using b(2) by simp
    then have "real_of_int (m + 1) \<le> real_of_int (2 ^ nat (bitlen m))"
      by (simp only: of_int_le_iff)
    then show ?thesis by simp
  qed
  have "1 / x \<le> 2 ^ nat (bitlen m)"
    using m(3) hi by linarith
  then have 1: "1 / 2 ^ nat (bitlen m) \<le> x"
    using assms by (simp add: field_simps)
  have "2 ^ nat (bitlen m - 1) < 1 / x"
    using m(2) lo by linarith
  then have 2: "x < 1 / 2 ^ nat (bitlen m - 1)"
    using assms by (simp add: field_simps)
  have e: "ilog2 x = - bitlen m"
    using False by (simp add: ilog2_def m_def)
  have p1: "pow2 (- bitlen m) = 1 / 2 ^ nat (bitlen m)"
    using pos by (simp add: pow2_def)
  have p2: "pow2 (- bitlen m + 1) = 1 / 2 ^ nat (bitlen m - 1)"
  proof (cases "bitlen m = 1")
    case True
    then show ?thesis by (simp add: pow2_def)
  next
    case False
    then have "1 < bitlen m" using pos by simp
    then show ?thesis by (simp add: pow2_def)
  qed
  show ?thesis
    unfolding e p1 p2 using 1 2 by blast
qed

text \<open>\<open>round_even\<close> is a nearest integer.\<close>

lemma round_even_nearest: "\<bar>of_int (round_even x) - x\<bar> \<le> 1 / 2"
proof -
  have "of_int \<lfloor>x\<rfloor> \<le> x" and "x < of_int \<lfloor>x\<rfloor> + 1"
    by linarith+
  then show ?thesis
    unfolding round_even_def Let_def by (auto split: if_splits)
qed


section \<open>The scenarios, evaluated\<close>

lemmas double_defs = rnd_def round_even_def ilog2_def pow2_def Let_def compute_bitlen
  minus_double_def double_of_nat_def

text \<open>Where the machine rounds, so does \<open>double\<close>.\<close>

lemma double_rounds:
  "Finite (2 ^ 53 + 2) - Finite 1 = Finite (2 ^ 53)"
  "rnd (11 / 10) - rnd (3 / 10) = rnd (8 / 10)"
  "rnd (1 / 10) * double_of_nat 3 = rnd (30000000000000004 / 100000000000000000)"
  "rnd (1 / 10) * double_of_nat 3 \<noteq> rnd (3 / 10)"
  by (simp_all add: double_defs)

lemma doubles_at_limit:
  "rnd (1700648982553 / 1000) = Finite (3566519415058989 / 2 ^ 21)"
  "rnd (1700558884504 / 1000) = Finite (7132660931510665 / 2 ^ 22)"
  "rnd (90090049 / 1000) = Finite (773867628300075 / 2 ^ 33)"
  "(3566519415058989 / 2 ^ 21 - (7132660931510665 / 2 ^ 22 + 773867628300075 / 2 ^ 33) :: real)
     = 8 + 213 / 2 ^ 33"
  by (simp_all add: double_defs)

lemma elapsed_at_limit:
  "rnd (1700648982553 / 1000) - (rnd (1700558884504 / 1000) + rnd (90090049 / 1000)) = Finite 8"
  by (simp add: double_defs)

lemma observed_eq:
  "observed = \<lparr>trackDatabase = [(7, [track7]), (42, [track42, track42, track42])], epoch = Finite 90\<rparr>"
  by (simp add: observed_def created_def processInput_def updateDatabase_def db_find_def
      db_push_back_def track7_def track42_def double_defs)

lemma observed_inv: "db_inv (trackDatabase observed)"
  by (simp add: observed_eq db_inv_def track7_def track42_def)

lemmas pass_defs = checkDatabase_def checkLoop.simps(2) db_begin_def db_next_def db_find_def
  db_erase_def settings_def double_defs

lemma pass_105:
  "checkDatabase double_of_nat settings (\<lambda>_. Finite 105) observed =
     (\<lparr>trackDatabase = [(42, [track42, track42, track42])], epoch = Finite 90\<rparr>,
      [setFlags kDropping (Track_Make ''TrackMaintainer'' track7),
       setFlags kPromoted (Track_Make ''TrackMaintainer'' track42)],
      [7, 42])"
  by (simp add: observed_eq pass_defs track7_def track42_def)

lemma pass_120:
  "checkDatabase double_of_nat settings (\<lambda>_. Finite 120) observed =
     (\<lparr>trackDatabase = [], epoch = Finite 90\<rparr>,
      [setFlags kDropping (Track_Make ''TrackMaintainer'' track7),
       setFlags kDropping (Track_Make ''TrackMaintainer'' track42)],
      [7, 42])"
  by (simp add: observed_eq pass_defs track7_def track42_def)

lemma pass_105_again:
  "checkDatabase double_of_nat settings (\<lambda>_. Finite 105)
       \<lparr>trackDatabase = [(42, [track42, track42, track42])], epoch = Finite 90\<rparr> =
     (\<lparr>trackDatabase = [(42, [track42, track42, track42])], epoch = Finite 90\<rparr>,
      [setFlags kPromoted (Track_Make ''TrackMaintainer'' track42)],
      [42])"
  by (simp add: pass_defs track7_def track42_def)

lemma at_limit_inv: "db_inv (trackDatabase at_limit)"
  by (simp add: at_limit_def db_inv_def track1_def)

lemma pass_at_limit:
  "checkDatabase double_of_nat settings1 clock_at_limit at_limit =
     (at_limit, [setFlags kPromoted (Track_Make ''TrackMaintainer'' track1)], [1])"
  by (simp add: at_limit_def clock_at_limit_def checkDatabase_def checkLoop.simps(2) db_begin_def
      db_next_def db_find_def db_erase_def settings1_def track1_def double_defs)

text \<open>
  Every object reached from an empty database by calls of the three methods has a
  well-formed database, and the scenario's object is one.
\<close>

lemma reachable_db_inv:
  "db_inv (trackDatabase (fst (run toDouble cs \<lparr>trackDatabase = [], epoch = e\<rparr>)))"
  by (rule db_inv_run) (simp add: db_inv_def)

section \<open>The claims about the maintenance pass\<close>

text \<open>
  C1 (as amended). An entry whose latest message is tentative, whose vector has reached
  \<open>hitsBeforePromote\<close> messages and which is not dropped in the pass (the drop test of the
  loop, in the machine's arithmetic, fails for it) gets exactly one report in the pass:
  its latest message under the producer name of the algorithm, with flags promoted. The
  entry itself stays in the database as it was: its latest message is still tentative.
\<close>

theorem promoted_report_when_not_dropped:
  assumes "db_inv (trackDatabase st)"
    and "i < length (trackDatabase st)" and "trackDatabase st ! i = (k, tracks)"
    and "type (last tracks) = kTentative" and "hitsBeforePromote P \<le> length tracks"
    and "\<not> clock i - (epoch st + extractionTime (last tracks))
             > rotationDuration P * toDouble (missesBeforeDrop P)"
    and "checkDatabase toDouble P clock st = (st', out, visited)"
  shows "filter (\<lambda>r. trackNumber r = k) out
           = [(last tracks)\<lparr>producer := ''TrackMaintainer'', flags := kPromoted\<rparr>]
         \<and> map flags (filter (\<lambda>r. trackNumber r = k) out) = [kPromoted]
         \<and> db_find (trackDatabase st') k = Some tracks"
  using checkDatabase_entry [OF assms(1,2,3,7)] assms(4,5,6)
  by (simp add: entryReport_def droppable_def promotable_def promotedReport_def setFlags_def
      Track_Make_def)

theorem promoted_report_when_not_dropped_witness:
  "filter (\<lambda>r. trackNumber r = 42)
       (fst (snd (checkDatabase double_of_nat settings (\<lambda>_. Finite 105) observed)))
     = [\<lparr>producer = ''TrackMaintainer'', trackNumber = 42, flags = kPromoted, type = kTentative,
         extractionTime = Finite 10\<rparr>]
   \<and> db_find (trackDatabase (fst (checkDatabase double_of_nat settings (\<lambda>_. Finite 105) observed))) 42
       = Some [track42, track42, track42]
   \<and> map flags (filter (\<lambda>r. trackNumber r = 1)
       (fst (snd (checkDatabase double_of_nat settings1 clock_at_limit at_limit)))) = [kPromoted]
   \<and> db_find (trackDatabase (fst (checkDatabase double_of_nat settings1 clock_at_limit at_limit))) 1
       = Some [track1]"
proof -
  have i: "1 < length (trackDatabase observed)"
    and e: "trackDatabase observed ! 1 = (42, [track42, track42, track42])"
    by (simp_all add: observed_eq)
  have t: "type (last [track42, track42, track42]) = kTentative"
    and h: "hitsBeforePromote settings \<le> length [track42, track42, track42]"
    and d: "\<not> Finite 105 - (epoch observed + extractionTime (last [track42, track42, track42]))
               > rotationDuration settings * double_of_nat (missesBeforeDrop settings)"
    by (simp_all add: observed_eq settings_def track42_def double_defs)
  have i': "0 < length (trackDatabase at_limit)"
    and e': "trackDatabase at_limit ! 0 = (1, [track1])"
    by (simp_all add: at_limit_def)
  have t': "type (last [track1]) = kTentative"
    and h': "hitsBeforePromote settings1 \<le> length [track1]"
    and d': "\<not> clock_at_limit 0 - (epoch at_limit + extractionTime (last [track1]))
               > rotationDuration settings1 * double_of_nat (missesBeforeDrop settings1)"
    by (simp_all add: at_limit_def clock_at_limit_def settings1_def track1_def double_defs)
  from promoted_report_when_not_dropped [OF observed_inv i e t h d pass_105]
    promoted_report_when_not_dropped [OF at_limit_inv i' e' t' h' d' pass_at_limit]
  show ?thesis
    by (simp add: pass_105 pass_at_limit track7_def track42_def setFlags_def Track_Make_def)
qed

text \<open>
  C1 as stated fails. After the pass at wall time 105 the entry of track 42, tentative with
  three messages against a threshold of three, is still tentative in the database; and in
  the pass at wall time 120, in which the entry is dropped, no promoted report is sent.
\<close>

theorem promotion_does_not_confirm:
  "type (last (the (db_find (trackDatabase observed) 42))) = kTentative
   \<and> hitsBeforePromote settings \<le> length (the (db_find (trackDatabase observed) 42))
   \<and> type (last (the (db_find (trackDatabase
         (fst (checkDatabase double_of_nat settings (\<lambda>_. Finite 105) observed))) 42)))
       \<noteq> kConfirmed
   \<and> filter (\<lambda>r. flags r = kPromoted)
        (fst (snd (checkDatabase double_of_nat settings (\<lambda>_. Finite 120) observed))) = []"
  by (simp add: pass_105 pass_120)
    (simp add: observed_eq db_find_def settings_def track42_def setFlags_def)

text \<open>
  C2 (as amended). With the clock at the same reading throughout both passes and the same
  parameters, the second pass removes nothing and changes nothing, and sends again every
  promoted report of the first pass, and nothing else: no dropping report.
\<close>

theorem second_pass_repeats_promotions:
  assumes "sorted_wrt (<) (map fst (trackDatabase st))"
    and "checkDatabase toDouble P (\<lambda>_. now) st = (st1, out1, visited1)"
  shows "checkDatabase toDouble P (\<lambda>_. now) st1
           = (st1, filter (\<lambda>r. flags r = kPromoted) out1, map fst (trackDatabase st1))"
proof -
  let ?dl = "rotationDuration P * toDouble (missesBeforeDrop P)"
  note eq = assms(2) [unfolded checkDatabase_sweep [OF assms(1)]]
  have st1: "st1 = st\<lparr>trackDatabase := kept ?dl (epoch st) (\<lambda>_. now) 0 (trackDatabase st)\<rparr>"
    and out1: "out1 = emitted P ?dl (epoch st) (\<lambda>_. now) 0 (trackDatabase st)"
    using eq by simp_all
  have "sorted_wrt (<) (map fst (trackDatabase st1))"
    using sorted_kept [OF assms(1)] st1 by simp
  from checkDatabase_sweep [OF this, of toDouble P "\<lambda>_. now"]
  show ?thesis
    by (simp add: st1 out1 kept_same_clock emitted_same_clock)
qed

theorem second_pass_repeats_promotions_witness:
  "checkDatabase double_of_nat settings (\<lambda>_. Finite 105)
       (fst (checkDatabase double_of_nat settings (\<lambda>_. Finite 105) observed))
     = (fst (checkDatabase double_of_nat settings (\<lambda>_. Finite 105) observed),
        [setFlags kPromoted (Track_Make ''TrackMaintainer'' track42)], [42])"
proof -
  have s: "sorted_wrt (<) (map fst (trackDatabase observed))"
    by (simp add: observed_eq)
  from second_pass_repeats_promotions [OF s pass_105]
  show ?thesis
    by (simp add: pass_105 setFlags_def)
qed

text \<open>
  C2 as stated fails: the second of two passes at wall time 105 sends a report, the
  promoted report of track 42 again.
\<close>

theorem second_pass_reports_again:
  "fst (snd (checkDatabase double_of_nat settings (\<lambda>_. Finite 105)
               (fst (checkDatabase double_of_nat settings (\<lambda>_. Finite 105) observed))))
     = [setFlags kPromoted (Track_Make ''TrackMaintainer'' track42)]"
  by (simp add: pass_105 pass_105_again)

text \<open>
  C3. In a pass, at most one report is sent for an entry. When the entry is promotable
  and the drop test of the loop holds for it, that report is the dropping report, the
  latest message under the producer name of the algorithm with flags dropping and not
  promoted, and the entry is removed.
\<close>

theorem one_report_per_entry_drop_wins:
  assumes "db_inv (trackDatabase st)"
    and "i < length (trackDatabase st)" and "trackDatabase st ! i = (k, tracks)"
    and "checkDatabase toDouble P clock st = (st', out, visited)"
  shows "length (filter (\<lambda>r. trackNumber r = k) out) \<le> 1
         \<and> (type (last tracks) = kTentative \<and> hitsBeforePromote P \<le> length tracks
              \<and> clock i - (epoch st + extractionTime (last tracks))
                   > rotationDuration P * toDouble (missesBeforeDrop P)
            \<longrightarrow> filter (\<lambda>r. trackNumber r = k) out
                  = [(last tracks)\<lparr>producer := ''TrackMaintainer'', flags := kDropping\<rparr>]
                \<and> map flags (filter (\<lambda>r. trackNumber r = k) out) = [kDropping]
                \<and> db_find (trackDatabase st') k = None)"
  using checkDatabase_entry [OF assms]
  by (simp add: entryReport_def droppable_def droppingReport_def setFlags_def Track_Make_def)

theorem one_report_per_entry_drop_wins_witness:
  "type (last [track42, track42, track42]) = kTentative
   \<and> hitsBeforePromote settings \<le> length [track42, track42, track42]
   \<and> Finite 120 - (epoch observed + extractionTime (last [track42, track42, track42]))
        > rotationDuration settings * double_of_nat (missesBeforeDrop settings)
   \<and> filter (\<lambda>r. trackNumber r = 42)
        (fst (snd (checkDatabase double_of_nat settings (\<lambda>_. Finite 120) observed)))
       = [\<lparr>producer = ''TrackMaintainer'', trackNumber = 42, flags = kDropping, type = kTentative,
           extractionTime = Finite 10\<rparr>]
   \<and> db_find (trackDatabase (fst (checkDatabase double_of_nat settings (\<lambda>_. Finite 120) observed))) 42
       = None
   \<and> length (filter (\<lambda>r. trackNumber r = 1)
        (fst (snd (checkDatabase double_of_nat settings1 clock_at_limit at_limit)))) \<le> 1"
proof -
  have i: "1 < length (trackDatabase observed)"
    and e: "trackDatabase observed ! 1 = (42, [track42, track42, track42])"
    by (simp_all add: observed_eq)
  have c: "type (last [track42, track42, track42]) = kTentative
     \<and> hitsBeforePromote settings \<le> length [track42, track42, track42]
     \<and> Finite 120 - (epoch observed + extractionTime (last [track42, track42, track42]))
        > rotationDuration settings * double_of_nat (missesBeforeDrop settings)"
    by (simp add: observed_eq settings_def track42_def double_defs)
  have i': "0 < length (trackDatabase at_limit)"
    and e': "trackDatabase at_limit ! 0 = (1, [track1])"
    by (simp_all add: at_limit_def)
  from one_report_per_entry_drop_wins [OF observed_inv i e pass_120] c
    one_report_per_entry_drop_wins [OF at_limit_inv i' e' pass_at_limit]
  show ?thesis
    by (simp add: pass_120 pass_at_limit track7_def track42_def setFlags_def Track_Make_def)
qed

section \<open>The claims about incoming messages and the offset\<close>

text \<open>
  C4. \<^verbatim>\<open>processInput\<close> returns true in all cases. A message flagged new or corrected
  goes through \<^verbatim>\<open>updateDatabase\<close>: it is added at the end of the vector of its track
  number. With any other flag the object, database and offset, is left as it was. So the
  database changes if and only if the flag is new or corrected.
\<close>

theorem processInput_folds_new_and_corrected_only:
  "fst (processInput now msg st) = True
   \<and> (if flags msg = kNew \<or> flags msg = kCorrected
      then snd (processInput now msg st) = updateDatabase now msg st
           \<and> db_find (trackDatabase (snd (processInput now msg st))) (trackNumber msg)
               = Some ((case db_find (trackDatabase st) (trackNumber msg) of
                          None \<Rightarrow> [] | Some ts \<Rightarrow> ts) @ [msg])
      else snd (processInput now msg st) = st)
   \<and> ((trackDatabase (snd (processInput now msg st)) \<noteq> trackDatabase st)
        = (flags msg = kNew \<or> flags msg = kCorrected))"
  using updateDatabase_changes [of now msg st]
  by (simp add: processInput_def updateDatabase_find)

theorem processInput_folds_new_and_corrected_only_witness:
  "snd (processInput (Finite 100) track42 created)
     = \<lparr>trackDatabase = [(42, [track42])], epoch = Finite 90\<rparr>
   \<and> snd (processInput (Finite 100) (setFlags kPredicted track42) created) = created"
  using processInput_folds_new_and_corrected_only [of "Finite 100" track42 created]
    processInput_folds_new_and_corrected_only [of "Finite 100" "setFlags kPredicted track42" created]
  by (simp add: setFlags_def track42_def created_def updateDatabase_def db_find_def
      db_push_back_def double_defs)

text \<open>
  C5. After an accepted message the offset is the wall-clock reading taken for it minus
  its extraction time, the difference as the machine subtracts doubles, whatever the track
  number of the message. Over any sequence of calls the offset is the one of the last
  accepted message: passes, resets and messages that are not accepted leave it alone.
\<close>

theorem epoch_from_latest_accepted:
  assumes "flags msg = kNew \<or> flags msg = kCorrected"
    and "list_all (\<lambda>c. \<not> accepted c) later"
  shows "epoch (snd (processInput now msg st)) = now - extractionTime msg
         \<and> epoch (fst (run toDouble (earlier @ ProcessInput now msg # later) st))
             = now - extractionTime msg"
proof -
  have one: "epoch (snd (processInput now msg st')) = now - extractionTime msg" for st'
    using assms(1) by (simp add: processInput_def updateDatabase_epoch)
  have "epoch (fst (run toDouble (earlier @ ProcessInput now msg # later) st))
          = epoch (fst (run toDouble later
                     (fst (exec toDouble (ProcessInput now msg) (fst (run toDouble earlier st))))))"
    by (simp add: run_append run_Cons del: run.simps(2))
  also have "\<dots> = epoch (fst (exec toDouble (ProcessInput now msg) (fst (run toDouble earlier st))))"
    using run_epoch [OF assms(2)] by simp
  also have "\<dots> = now - extractionTime msg"
    using one by simp
  finally show ?thesis
    using one by simp
qed

text \<open>
  In the witness the first message alone would give the offset 93, the message that is not
  accepted 298, the accepted one 90; and for a message at wall time \<open>2 ^ 53 + 2\<close> extracted
  at time 1 the offset is \<open>2 ^ 53\<close>, the rounded difference.
\<close>

theorem epoch_from_latest_accepted_witness:
  "epoch (fst (run double_of_nat
                 ([ProcessInput (Finite 95) track7] @ ProcessInput (Finite 100) track42
                    # [ProcessAlarm settings (\<lambda>_. Finite 105),
                       ProcessInput (Finite 300) (setFlags kPredicted track7)])
                 created)) = Finite 90
   \<and> Finite 95 - extractionTime track7 = Finite 93
   \<and> Finite 300 - extractionTime (setFlags kPredicted track7) = Finite 298
   \<and> epoch (snd (processInput (Finite (2 ^ 53 + 2)) (track7\<lparr>extractionTime := Finite 1\<rparr>) observed))
       = Finite (2 ^ 53)"
proof -
  have a: "flags track42 = kNew \<or> flags track42 = kCorrected"
    by (simp add: track42_def)
  have l: "list_all (\<lambda>c. \<not> accepted c)
             [ProcessAlarm settings (\<lambda>_. Finite 105),
              ProcessInput (Finite 300) (setFlags kPredicted track7)]"
    by (simp add: setFlags_def)
  have b: "flags (track7\<lparr>extractionTime := Finite 1\<rparr>) = kNew
             \<or> flags (track7\<lparr>extractionTime := Finite 1\<rparr>) = kCorrected"
    by (simp add: track7_def)
  have n: "list_all (\<lambda>c. \<not> accepted c) ([] :: double Call list)"
    by simp
  from epoch_from_latest_accepted [OF a l, of "Finite 100" created double_of_nat
        "[ProcessInput (Finite 95) track7]"]
    epoch_from_latest_accepted [OF b n, of "Finite (2 ^ 53 + 2)" observed double_of_nat "[]"]
  show ?thesis
    by (simp add: track42_def track7_def setFlags_def double_defs)
qed

section \<open>The claims about dropping, the traversal and what a pass leaves alone\<close>

text \<open>
  C6. The drop limit of a pass is the rotation duration times \<open>missesBeforeDrop\<close>. For the
  entry at position \<open>i\<close> in key order, read at clock reading \<open>clock i\<close>: when the reading
  minus (offset plus extraction time of the latest message) exceeds the limit, all in the
  machine's arithmetic, exactly one report is sent for the key, the latest message under
  the producer name of the algorithm with flags dropping, the entry is removed, and a
  later pass, with any parameters and clock, sends no report for the key. Otherwise the
  entry stays.
\<close>

theorem dropped_when_elapsed_exceeds_limit:
  assumes "db_inv (trackDatabase st)"
    and "i < length (trackDatabase st)" and "trackDatabase st ! i = (k, tracks)"
    and "checkDatabase toDouble P clock st = (st', out, visited)"
  shows "if clock i - (epoch st + extractionTime (last tracks))
              > rotationDuration P * toDouble (missesBeforeDrop P)
         then filter (\<lambda>r. trackNumber r = k) out
                = [(last tracks)\<lparr>producer := ''TrackMaintainer'', flags := kDropping\<rparr>]
              \<and> map flags (filter (\<lambda>r. trackNumber r = k) out) = [kDropping]
              \<and> db_find (trackDatabase st') k = None
              \<and> filter (\<lambda>r. trackNumber r = k)
                   (fst (snd (checkDatabase toDouble' P' clock' st'))) = []
         else db_find (trackDatabase st') k = Some tracks"
proof -
  have later: "filter (\<lambda>r. trackNumber r = k) (fst (snd (checkDatabase toDouble' P' clock' st'))) = []"
    if gone: "db_find (trackDatabase st') k = None"
  proof -
    have inv': "db_inv (trackDatabase st')"
      using db_inv_checkDatabase [OF assms(1,4)] .
    have "k \<notin> fst ` set (trackDatabase st')"
      using gone by (simp add: db_find_def map_of_eq_None_iff)
    moreover have "trackNumber r \<in> fst ` set (trackDatabase st')"
      if "r \<in> set (fst (snd (checkDatabase toDouble' P' clock' st')))" for r
      using checkDatabase_out_keys [OF inv' _ that, of toDouble' P' clock'
          "fst (checkDatabase toDouble' P' clock' st')"
          "snd (snd (checkDatabase toDouble' P' clock' st'))"]
      by simp
    ultimately show ?thesis
      by (auto simp: filter_empty_conv)
  qed
  show ?thesis
    using checkDatabase_entry [OF assms] later
    by (simp add: entryReport_def droppable_def droppingReport_def setFlags_def Track_Make_def)
qed

text \<open>
  In the witness track 7 is dropped at wall time 105 and track 42 is kept; and track 1 of
  the second scenario is kept, the machine's difference being 8 and not above it.
\<close>

theorem dropped_when_elapsed_exceeds_limit_witness:
  "filter (\<lambda>r. trackNumber r = 7)
       (fst (snd (checkDatabase double_of_nat settings (\<lambda>_. Finite 105) observed)))
     = [\<lparr>producer = ''TrackMaintainer'', trackNumber = 7, flags = kDropping, type = kConfirmed,
         extractionTime = Finite 2\<rparr>]
   \<and> db_find (trackDatabase (fst (checkDatabase double_of_nat settings (\<lambda>_. Finite 105) observed))) 7
       = None
   \<and> filter (\<lambda>r. trackNumber r = 7)
        (fst (snd (checkDatabase double_of_nat settings (\<lambda>_. Finite 200)
                     (fst (checkDatabase double_of_nat settings (\<lambda>_. Finite 105) observed))))) = []
   \<and> db_find (trackDatabase (fst (checkDatabase double_of_nat settings (\<lambda>_. Finite 105) observed))) 42
       = Some [track42, track42, track42]
   \<and> db_find (trackDatabase (fst (checkDatabase double_of_nat settings1 clock_at_limit at_limit))) 1
       = Some [track1]"
proof -
  have i0: "0 < length (trackDatabase observed)"
    and e0: "trackDatabase observed ! 0 = (7, [track7])"
    and i1: "1 < length (trackDatabase observed)"
    and e1: "trackDatabase observed ! 1 = (42, [track42, track42, track42])"
    by (simp_all add: observed_eq)
  have d0: "Finite 105 - (epoch observed + extractionTime (last [track7]))
              > rotationDuration settings * double_of_nat (missesBeforeDrop settings)"
    and d1: "\<not> Finite 105 - (epoch observed + extractionTime (last [track42, track42, track42]))
              > rotationDuration settings * double_of_nat (missesBeforeDrop settings)"
    by (simp_all add: observed_eq settings_def track7_def track42_def double_defs)
  have i': "0 < length (trackDatabase at_limit)"
    and e': "trackDatabase at_limit ! 0 = (1, [track1])"
    by (simp_all add: at_limit_def)
  have d': "\<not> clock_at_limit 0 - (epoch at_limit + extractionTime (last [track1]))
               > rotationDuration settings1 * double_of_nat (missesBeforeDrop settings1)"
    by (simp add: at_limit_def clock_at_limit_def settings1_def track1_def double_defs)
  from dropped_when_elapsed_exceeds_limit [OF observed_inv i0 e0 pass_105,
        of double_of_nat settings "\<lambda>_. Finite 200"]
    dropped_when_elapsed_exceeds_limit [OF observed_inv i1 e1 pass_105]
    dropped_when_elapsed_exceeds_limit [OF at_limit_inv i' e' pass_at_limit] d0 d1 d'
  show ?thesis
    by (simp add: pass_105 pass_at_limit track7_def track42_def setFlags_def Track_Make_def)
qed

text \<open>
  C8. A pass visits the entries present at its start in key order, each exactly once,
  whichever of them it removes on the way.
\<close>

theorem every_entry_visited_once:
  assumes "sorted_wrt (<) (map fst (trackDatabase st))"
    and "checkDatabase toDouble P clock st = (st', out, visited)"
  shows "visited = map fst (trackDatabase st) \<and> distinct visited"
  using checkDatabase_frame(4) [OF assms] assms(1)
  by (simp add: strict_sorted_iff)

theorem every_entry_visited_once_witness:
  "snd (snd (checkDatabase double_of_nat settings (\<lambda>_. Finite 105) observed)) = [7, 42]
   \<and> map fst (trackDatabase (fst (checkDatabase double_of_nat settings (\<lambda>_. Finite 105) observed)))
       = [42]"
proof -
  have s: "sorted_wrt (<) (map fst (trackDatabase observed))"
    by (simp add: observed_eq)
  from every_entry_visited_once [OF s pass_105]
  show ?thesis
    by (simp add: pass_105)
qed

text \<open>
  C10. A pass does not change the offset, and an entry that is in the database after the
  pass is there as it was before: same key, same vector of messages, hence the same type
  and flags in each of them. Reports are copies.
\<close>

theorem pass_leaves_survivors_alone:
  assumes "sorted_wrt (<) (map fst (trackDatabase st))"
    and "checkDatabase toDouble P clock st = (st', out, visited)"
  shows "epoch st' = epoch st
         \<and> (\<forall>k ts. db_find (trackDatabase st') k = Some ts \<longrightarrow> db_find (trackDatabase st) k = Some ts)"
  using checkDatabase_frame(1,2,3) [OF assms] sorted_db_find [OF assms(1)]
    sorted_db_find [of "trackDatabase st'"]
  by auto

theorem pass_leaves_survivors_alone_witness:
  "epoch (fst (checkDatabase double_of_nat settings (\<lambda>_. Finite 105) observed)) = epoch observed
   \<and> db_find (trackDatabase (fst (checkDatabase double_of_nat settings (\<lambda>_. Finite 105) observed))) 42
       = Some [track42, track42, track42]
   \<and> db_find (trackDatabase observed) 42 = Some [track42, track42, track42]"
proof -
  have s: "sorted_wrt (<) (map fst (trackDatabase observed))"
    by (simp add: observed_eq)
  have f: "db_find (trackDatabase (fst (checkDatabase double_of_nat settings (\<lambda>_. Finite 105) observed))) 42
             = Some [track42, track42, track42]"
    by (simp add: pass_105 db_find_def)
  from pass_leaves_survivors_alone [OF s pass_105] f
  show ?thesis
    by (simp add: pass_105)
qed

section \<open>The claim about reset\<close>

text \<open>
  C7. After \<^verbatim>\<open>reset()\<close> the database is empty, and nothing of the object before the call
  shows in what follows: whatever the two objects were before their reset, the same calls
  give the same results (values returned, messages sent, keys visited) and the same
  database. The offset is not written by \<^verbatim>\<open>reset()\<close>; it is written by the first accepted
  message, before any entry exists that a pass could read it for.
\<close>

theorem reset_forgets_the_past:
  "trackDatabase (snd (reset super s)) = []
   \<and> snd (run toDouble cs (snd (reset super s))) = snd (run toDouble cs (snd (reset super' s')))
   \<and> trackDatabase (fst (run toDouble cs (snd (reset super s))))
       = trackDatabase (fst (run toDouble cs (snd (reset super' s'))))"
proof -
  have "same_behaviour (snd (reset super s)) (snd (reset super' s'))"
    by (simp add: same_behaviour_def reset_def)
  from same_behaviour_run [OF this, of toDouble cs] show ?thesis
    by (simp add: same_behaviour_def reset_def)
qed

theorem reset_forgets_the_past_witness:
  "trackDatabase (snd (reset True observed)) = []
   \<and> snd (run double_of_nat [ProcessAlarm settings (\<lambda>_. Finite 105), ProcessInput (Finite 100) track42]
           (snd (reset True observed)))
       = snd (run double_of_nat [ProcessAlarm settings (\<lambda>_. Finite 105), ProcessInput (Finite 100) track42]
               (snd (reset True created)))"
  using reset_forgets_the_past [of True observed double_of_nat
      "[ProcessAlarm settings (\<lambda>_. Finite 105), ProcessInput (Finite 100) track42]" True created]
  by simp

section \<open>The claim about Mutex equality\<close>

text \<open>
  C9. Two references to Mutex objects compare equal exactly when they refer to the same
  object, and \<^verbatim>\<open>!=\<close> is the negation of \<^verbatim>\<open>==\<close>, whatever the objects hold: two objects
  at different addresses holding the same value are not equal.
\<close>

theorem Mutex_equality_is_identity:
  "Mutex_eq h a b = (a = b)
   \<and> Mutex_ne h a b = (\<not> Mutex_eq h a b)
   \<and> \<not> Mutex_eq (h(0 \<mapsto> m, 1 \<mapsto> m)) 0 1"
  by (simp add: Mutex_eq_def Mutex_ne_def)

end
